theory Spec2Isabelle
  imports Complex_Main "HOL-Library.Word"
begin

unbundle bit_operations_syntax

section \<open>Python values\<close>

text \<open>
  The two scripts \<^verbatim>\<open>tools/analyze_wav.py\<close> and \<^verbatim>\<open>tools/quick_audio_analysis.py\<close>
  share their decoder and their scalar statistics line for line; one definition stands
  for both copies.

  Channel buffers are lists of Python floats. Arithmetic on finite values is the exact
  arithmetic of \<open>real\<close>: rounding, overflow to infinity and underflow to zero of IEEE
  doubles are outside the model. The decoder keeps the non-finite values of a 32-bit float
  payload apart (\<open>pyfloat\<close>), because the source compares them, and \<^verbatim>\<open>mean\<close>,
  \<^verbatim>\<open>corr_at_lag\<close> and \<^verbatim>\<open>best_lag\<close> take such buffers: a NaN sample decides which
  way their comparisons go. The level, noise-floor, clipping and leakage functions are
  modelled on buffers of finite samples (\<open>real list\<close>).
\<close>

datatype py_error = RuntimeError string | ValueError | IndexError | ZeroDivisionError

type_synonym byte = "8 word"

datatype pyfloat = Finite real | PosInf | NegInf | NaN

text \<open>\<^verbatim>\<open>int(x)\<close> on a float truncates towards zero.\<close>

definition py_int :: "real \<Rightarrow> int" where
  "py_int x = (if 0 \<le> x then \<lfloor>x\<rfloor> else \<lceil>x\<rceil>)"

text \<open>
  \<^verbatim>\<open>range(start, stop, step)\<close> for a non-zero step, with the length Python computes
  for it. A zero step raises \<^verbatim>\<open>ValueError\<close>; the callers check it before they get here.
\<close>

definition py_range :: "int \<Rightarrow> int \<Rightarrow> int \<Rightarrow> int list" where
  "py_range start stop step =
     (if 0 < step then
        map (\<lambda>k. start + int k * step) [0 ..< nat ((stop - start + step - 1) div step)]
      else if step < 0 then
        map (\<lambda>k. start + int k * step) [0 ..< nat ((start - stop - step - 1) div (- step))]
      else [])"

fun pf_abs :: "pyfloat \<Rightarrow> pyfloat" where
  "pf_abs (Finite x) = Finite \<bar>x\<bar>"
| "pf_abs PosInf = PosInf"
| "pf_abs NegInf = PosInf"
| "pf_abs NaN = NaN"

text \<open>\<open>pf_gt a b\<close> is \<^verbatim>\<open>a > b\<close>; every comparison with a NaN is false.\<close>

fun pf_gt :: "pyfloat \<Rightarrow> pyfloat \<Rightarrow> bool" where
  "pf_gt NaN _ = False"
| "pf_gt _ NaN = False"
| "pf_gt (Finite x) (Finite y) = (y < x)"
| "pf_gt (Finite x) PosInf = False"
| "pf_gt (Finite x) NegInf = True"
| "pf_gt PosInf PosInf = False"
| "pf_gt PosInf _ = True"
| "pf_gt NegInf _ = False"

text \<open>
  \<^verbatim>\<open>max(abs(v) for v in vals) if vals else 0.0\<close>: the builtin keeps its first item and
  replaces it whenever a later item compares greater.
\<close>

definition maxabs_of :: "pyfloat list \<Rightarrow> pyfloat" where
  "maxabs_of vals =
     (case map pf_abs vals of
        [] \<Rightarrow> Finite 0
      | x # rest \<Rightarrow> fold (\<lambda>item m. if pf_gt item m then item else m) rest x)"

text \<open>
  Arithmetic on \<open>pyfloat\<close>, for the functions that can meet non-finite samples. On finite
  values it is the exact arithmetic of the reals; an infinity or a NaN propagates as IEEE-754
  prescribes (\<open>inf - inf\<close>, \<open>0 * inf\<close> and \<open>inf / inf\<close> are NaN). Signed zeros are not
  told apart.
\<close>

fun pf_add :: "pyfloat \<Rightarrow> pyfloat \<Rightarrow> pyfloat" where
  "pf_add NaN _ = NaN"
| "pf_add _ NaN = NaN"
| "pf_add (Finite x) (Finite y) = Finite (x + y)"
| "pf_add PosInf NegInf = NaN"
| "pf_add NegInf PosInf = NaN"
| "pf_add PosInf _ = PosInf"
| "pf_add _ PosInf = PosInf"
| "pf_add NegInf _ = NegInf"
| "pf_add _ NegInf = NegInf"

fun pf_sub :: "pyfloat \<Rightarrow> pyfloat \<Rightarrow> pyfloat" where
  "pf_sub NaN _ = NaN"
| "pf_sub _ NaN = NaN"
| "pf_sub (Finite x) (Finite y) = Finite (x - y)"
| "pf_sub PosInf PosInf = NaN"
| "pf_sub NegInf NegInf = NaN"
| "pf_sub PosInf _ = PosInf"
| "pf_sub NegInf _ = NegInf"
| "pf_sub _ PosInf = NegInf"
| "pf_sub _ NegInf = PosInf"

definition inf_of_sign :: "bool \<Rightarrow> pyfloat" where
  "inf_of_sign positive = (if positive then PosInf else NegInf)"

fun pf_mul :: "pyfloat \<Rightarrow> pyfloat \<Rightarrow> pyfloat" where
  "pf_mul NaN _ = NaN"
| "pf_mul _ NaN = NaN"
| "pf_mul (Finite x) (Finite y) = Finite (x * y)"
| "pf_mul (Finite x) PosInf = (if x = 0 then NaN else inf_of_sign (0 < x))"
| "pf_mul (Finite x) NegInf = (if x = 0 then NaN else inf_of_sign (x < 0))"
| "pf_mul PosInf (Finite y) = (if y = 0 then NaN else inf_of_sign (0 < y))"
| "pf_mul NegInf (Finite y) = (if y = 0 then NaN else inf_of_sign (y < 0))"
| "pf_mul PosInf PosInf = PosInf"
| "pf_mul PosInf NegInf = NegInf"
| "pf_mul NegInf PosInf = NegInf"
| "pf_mul NegInf NegInf = PosInf"

text \<open>
  \<open>pf_div x y\<close> is \<^verbatim>\<open>x / y\<close> for a divisor other than zero. Python raises
  \<^verbatim>\<open>ZeroDivisionError\<close> on a zero divisor: a caller whose divisor can be zero tests it
  first and returns that error.
\<close>

fun pf_div :: "pyfloat \<Rightarrow> pyfloat \<Rightarrow> pyfloat" where
  "pf_div NaN _ = NaN"
| "pf_div _ NaN = NaN"
| "pf_div (Finite x) (Finite y) = Finite (x / y)"
| "pf_div (Finite x) _ = Finite 0"
| "pf_div PosInf (Finite y) = inf_of_sign (0 < y)"
| "pf_div NegInf (Finite y) = inf_of_sign (y < 0)"
| "pf_div _ _ = NaN"

text \<open>
  \<^verbatim>\<open>math.sqrt\<close> raises \<^verbatim>\<open>ValueError\<close> on a negative argument (\<open>sqrt_domain\<close> is false
  there); it maps NaN to NaN and \<open>inf\<close> to \<open>inf\<close>.
\<close>

fun sqrt_domain :: "pyfloat \<Rightarrow> bool" where
  "sqrt_domain (Finite x) = (0 \<le> x)"
| "sqrt_domain NegInf = False"
| "sqrt_domain _ = True"

fun pf_sqrt :: "pyfloat \<Rightarrow> pyfloat" where
  "pf_sqrt (Finite x) = Finite (sqrt x)"
| "pf_sqrt PosInf = PosInf"
| "pf_sqrt _ = NaN"

text \<open>\<open>pf_le a b\<close> is \<^verbatim>\<open>a <= b\<close>; false as soon as one side is a NaN.\<close>

fun pf_le :: "pyfloat \<Rightarrow> pyfloat \<Rightarrow> bool" where
  "pf_le NaN _ = False"
| "pf_le _ NaN = False"
| "pf_le (Finite x) (Finite y) = (x \<le> y)"
| "pf_le NegInf _ = True"
| "pf_le _ PosInf = True"
| "pf_le PosInf _ = False"
| "pf_le _ NegInf = False"

section \<open>SampleDecoder: \<^verbatim>\<open>read_wav_stereo\<close>\<close>

definition le16 :: "byte \<Rightarrow> byte \<Rightarrow> 16 word" where
  "le16 b0 b1 = push_bit 8 (ucast b1) OR ucast b0"

definition le32 :: "byte \<Rightarrow> byte \<Rightarrow> byte \<Rightarrow> byte \<Rightarrow> 32 word" where
  "le32 b0 b1 b2 b3 =
     push_bit 24 (ucast b3) OR push_bit 16 (ucast b2) OR push_bit 8 (ucast b1) OR ucast b0"

fun unpack_le16 :: "byte list \<Rightarrow> 16 word list" where
  "unpack_le16 (b0 # b1 # rest) = le16 b0 b1 # unpack_le16 rest"
| "unpack_le16 _ = []"

fun unpack_le32 :: "byte list \<Rightarrow> 32 word list" where
  "unpack_le32 (b0 # b1 # b2 # b3 # rest) = le32 b0 b1 b2 b3 # unpack_le32 rest"
| "unpack_le32 _ = []"

text \<open>
  \<^verbatim>\<open>a = array('h'); a.frombytes(frames)\<close>: the items are signed 16-bit integers in the
  machine's byte order (little-endian here, as the WAV payload is); \<^verbatim>\<open>frombytes\<close>
  raises \<^verbatim>\<open>ValueError\<close> when the byte count is not a multiple of the item size.
\<close>

definition array_h_frombytes :: "byte list \<Rightarrow> py_error + int list" where
  "array_h_frombytes frames =
     (if length frames mod 2 \<noteq> 0 then Inl ValueError
      else Inr (map sint (unpack_le16 frames)))"

text \<open>The value of an IEEE-754 binary32 bit pattern, as \<^verbatim>\<open>struct.unpack('<f', ...)\<close> gives it.\<close>

definition f32_value :: "32 word \<Rightarrow> pyfloat" where
  "f32_value w =
     (let e = unat (drop_bit 23 w AND 0xFF);
          m = unat (w AND 0x7FFFFF);
          s = (if bit w 31 then - 1 else (1::real))
      in if e = 255 then (if m = 0 then (if bit w 31 then NegInf else PosInf) else NaN)
         else if e = 0 then Finite (s * real m / 2 ^ 149)
         else if 150 \<le> e then Finite (s * real (2 ^ 23 + m) * 2 ^ (e - 150))
         else Finite (s * real (2 ^ 23 + m) / 2 ^ (150 - e)))"

definition deinterleave :: "'a list \<Rightarrow> 'a list \<times> 'a list" where
  "deinterleave vals =
     (map (\<lambda>i. vals ! (i * 2)) [0 ..< length vals div 2],
      map (\<lambda>i. vals ! (i * 2 + 1)) [0 ..< length vals div 2])"

text \<open>
  The container reader (\<^verbatim>\<open>wave.open\<close>) is outside the model: the decoder takes what it
  yields, the channel count, the sample rate, the sample width and the raw payload.
\<close>

definition read_wav_stereo ::
  "int \<Rightarrow> int \<Rightarrow> int \<Rightarrow> byte list \<Rightarrow> py_error + (int \<times> pyfloat list \<times> pyfloat list)" where
  "read_wav_stereo nch sr sw frames =
     (if nch \<noteq> 2 then Inl (RuntimeError ''Expected stereo WAV (2 channels)'')
      else if sw = 2 then
        (case array_h_frombytes frames of
           Inl e \<Rightarrow> Inl e
         | Inr a \<Rightarrow>
             (let norm = 32768;
                  (left, right) = deinterleave (map (\<lambda>v. Finite (real_of_int v / norm)) a)
              in Inr (sr, left, right)))
      else if sw = 4 then
        (let count = length frames div 4;
             vals = map f32_value (unpack_le32 (take (count * 4) frames));
             maxabs = maxabs_of vals;
             vals = (if pf_gt maxabs (Finite 10)
                     then (let vals_i32 = map sint (unpack_le32 (take (count * 4) frames));
                               norm = 2147483648
                           in map (\<lambda>vi. Finite (real_of_int vi / norm)) vals_i32)
                     else vals);
             (left, right) = deinterleave vals
         in Inr (sr, left, right))
      else Inl (RuntimeError ''Unsupported sample width''))"

text \<open>
  The signed 16-bit little-endian reading of two bytes in the words of the specification,
  by arithmetic on the byte values; the decoder's \<open>sint (le16 b0 b1)\<close> is compared with it.
\<close>

definition spec_int16_le :: "byte \<Rightarrow> byte \<Rightarrow> int" where
  "spec_int16_le b0 b1 =
     (let u = uint b0 + 256 * uint b1 in if u < 32768 then u else u - 65536)"

section \<open>ScalarStats\<close>

definition rms :: "real list \<Rightarrow> real" where
  "rms arr = (if arr = [] then 0 else sqrt (fold (\<lambda>v s. s + v * v) arr 0 / real (length arr)))"

definition peak :: "real list \<Rightarrow> real" where
  "peak arr =
     (case map abs arr of
        [] \<Rightarrow> 0
      | x # rest \<Rightarrow> fold (\<lambda>item m. if m < item then item else m) rest x)"

text \<open>
  \<^verbatim>\<open>mean\<close> feeds \<^verbatim>\<open>corr_at_lag\<close>, so it is modelled on \<open>pyfloat\<close> samples;
  \<^verbatim>\<open>sum\<close> adds from the left, starting at 0.
\<close>

definition mean :: "pyfloat list \<Rightarrow> pyfloat" where
  "mean arr =
     (if arr = [] then Finite 0
      else pf_div (fold (\<lambda>v s. pf_add s v) arr (Finite 0)) (Finite (real (length arr))))"

definition dbfs :: "real \<Rightarrow> real" where
  "dbfs x = (if x \<le> 0 then - 999 else 20 * log 10 x)"

section \<open>CrossChannelAnalyzer\<close>

definition truncate_same_len :: "'a list \<Rightarrow> 'a list \<Rightarrow> 'a list \<times> 'a list" where
  "truncate_same_len a b = (let n = min (length a) (length b) in (take n a, take n b))"

text \<open>The slices of \<^verbatim>\<open>corr_at_lag\<close>: \<^verbatim>\<open>a[lag:]\<close> is \<open>drop\<close>, \<^verbatim>\<open>b[:len(a2)]\<close> is \<open>take\<close>.\<close>

definition lag_slices :: "'a list \<Rightarrow> 'a list \<Rightarrow> int \<Rightarrow> 'a list \<times> 'a list" where
  "lag_slices a b lag =
     (if lag = 0 then truncate_same_len a b
      else if 0 < lag then (let a2 = drop (nat lag) a; b2 = take (length a2) b in (a2, b2))
      else (let b2 = drop (nat (- lag)) b; a2 = take (length b2) a in (a2, b2)))"

text \<open>The accumulation loop over \<^verbatim>\<open>zip(a2, b2)\<close>; the state is \<open>(num, da, db)\<close>.\<close>

definition corr_sums ::
  "pyfloat \<Rightarrow> pyfloat \<Rightarrow> (pyfloat \<times> pyfloat) list \<Rightarrow> pyfloat \<times> pyfloat \<times> pyfloat" where
  "corr_sums ma mb ps =
     fold (\<lambda>(x, y) (num, da, db).
             (let dx = pf_sub x ma; dy = pf_sub y mb
              in (pf_add num (pf_mul dx dy), pf_add da (pf_mul dx dx), pf_add db (pf_mul dy dy))))
          ps (Finite 0, Finite 0, Finite 0)"

text \<open>
  \<^verbatim>\<open>corr_at_lag\<close>. A NaN in \<open>da\<close> or \<open>db\<close> passes both \<^verbatim>\<open><= 0.0\<close> guards, and the
  result is then a NaN. The two errors the last line could raise, \<^verbatim>\<open>math.sqrt\<close> on a
  negative product and a division by a zero root, are branches of the model.
\<close>

definition corr_at_lag :: "pyfloat list \<Rightarrow> pyfloat list \<Rightarrow> int \<Rightarrow> py_error + pyfloat" where
  "corr_at_lag a b lag =
     (let (a2, b2) = lag_slices a b lag
      in if a2 = [] \<or> b2 = [] then Inr (Finite 0)
         else (let ma = mean a2; mb = mean b2;
                   (num, da, db) = corr_sums ma mb (zip a2 b2)
               in if pf_le da (Finite 0) \<or> pf_le db (Finite 0) then Inr (Finite 0)
                  else (let p = pf_mul da db
                        in if \<not> sqrt_domain p then Inl ValueError
                           else (let d = pf_sqrt p
                                 in if d = Finite 0 then Inl ZeroDivisionError
                                    else Inr (pf_div num d)))))"

text \<open>
  One pass of the scan loop of \<^verbatim>\<open>best_lag\<close>; the state is \<open>(best, bestc)\<close>, or the
  error a call of \<^verbatim>\<open>corr_at_lag\<close> has raised. \<^verbatim>\<open>c > bestc\<close> is false for a NaN \<open>c\<close>.
\<close>

definition lag_step ::
  "(int \<Rightarrow> py_error + pyfloat) \<Rightarrow> int \<Rightarrow> py_error + (int \<times> pyfloat) \<Rightarrow> py_error + (int \<times> pyfloat)" where
  "lag_step f lag st =
     (case st of
        Inl e \<Rightarrow> Inl e
      | Inr (best, bestc) \<Rightarrow>
          (case f lag of
             Inl e \<Rightarrow> Inl e
           | Inr c \<Rightarrow> if pf_gt c bestc then Inr (lag, c) else Inr (best, bestc)))"

definition best_lag ::
  "pyfloat list \<Rightarrow> pyfloat list \<Rightarrow> int \<Rightarrow> int \<Rightarrow> int \<Rightarrow> py_error + (int \<times> pyfloat)" where
  "best_lag a b sr max_ms step =
     (let maxlag = py_int (real_of_int (sr * max_ms) / 1000)
      in if step = 0 then Inl ValueError
         else fold (lag_step (corr_at_lag a b))
                   (py_range (- maxlag) (maxlag + 1) step) (Inr (0, Finite (- 2))))"


section \<open>NoiseFloorEstimator\<close>

text \<open>The window loop: \<^verbatim>\<open>for i in range(0, len(arr)-win, win): rms(arr[i:i+win])\<close>.\<close>

definition noise_windows :: "real list \<Rightarrow> int \<Rightarrow> real list" where
  "noise_windows arr win =
     map (\<lambda>i. rms (take (nat win) (drop (nat i) arr)))
         (py_range 0 (int (length arr) - win) win)"

definition noise_floor_db :: "real list \<Rightarrow> int \<Rightarrow> int \<Rightarrow> real \<Rightarrow> py_error + real" where
  "noise_floor_db arr sr win_ms percentile =
     (let win = max 1 (py_int (real_of_int (sr * win_ms) / 1000))
      in if int (length arr) < win then Inr (dbfs (rms arr))
         else (let rms_list = noise_windows arr win
               in if rms_list = [] then Inr (dbfs (rms arr))
                  else (let rms_list = sort rms_list;
                            idx = max 0 (py_int (real (length rms_list) * percentile) - 1)
                        in if idx < int (length rms_list)
                           then Inr (dbfs (rms_list ! nat idx))
                           else Inl IndexError)))"

section \<open>ClippingAnalyzer\<close>

definition analyze_clipping :: "real list \<Rightarrow> real \<Rightarrow> int \<times> real" where
  "analyze_clipping arr threshold =
     (let clipped_samples = sum_list (map (\<lambda>v. 1) (filter (\<lambda>v. threshold \<le> \<bar>v\<bar>) arr))
      in (clipped_samples,
          if arr \<noteq> [] then (real_of_int clipped_samples / real (length arr)) * 100 else 0))"

section \<open>The correlation on finite samples\<close>

text \<open>
  On buffers whose samples are all finite, \<open>map Finite xs\<close>, the computations of
  \<^verbatim>\<open>mean\<close>, \<^verbatim>\<open>corr_at_lag\<close> and the scan of \<^verbatim>\<open>best_lag\<close> stay within the reals. The
  definitions below are those computations written on \<open>real\<close>; they serve the proofs, and
  the lemmas \<open>mean_Finite\<close>, \<open>corr_at_lag_Finite\<close> and \<open>lag_scan_Finite\<close> show that the
  functions above compute exactly these values on such buffers.
\<close>

definition mean_fin :: "real list \<Rightarrow> real" where
  "mean_fin arr = (if arr = [] then 0 else sum_list arr / real (length arr))"

definition corr_sums_fin :: "real \<Rightarrow> real \<Rightarrow> (real \<times> real) list \<Rightarrow> real \<times> real \<times> real" where
  "corr_sums_fin ma mb ps =
     fold (\<lambda>(x, y) (num, da, db).
             (let dx = x - ma; dy = y - mb
              in (num + dx * dy, da + dx * dx, db + dy * dy)))
          ps (0, 0, 0)"

definition corr_fin :: "real list \<Rightarrow> real list \<Rightarrow> int \<Rightarrow> real" where
  "corr_fin a b lag =
     (let (a2, b2) = lag_slices a b lag
      in if a2 = [] \<or> b2 = [] then 0
         else (let ma = mean_fin a2; mb = mean_fin b2;
                   (num, da, db) = corr_sums_fin ma mb (zip a2 b2)
               in if da \<le> 0 \<or> db \<le> 0 then 0 else num / sqrt (da * db)))"

definition lag_step_fin :: "(int \<Rightarrow> real) \<Rightarrow> int \<Rightarrow> int \<times> real \<Rightarrow> int \<times> real" where
  "lag_step_fin f lag st = (let c = f lag in if snd st < c then (lag, c) else st)"

section \<open>Facts about the correlation sums\<close>

lemma corr_fold_acc:
  "fold (\<lambda>(x, y) (num, da, db).
             (let dx = x - ma; dy = y - mb
              in (num + dx * dy, da + dx * dx, db + dy * dy))) ps (n0, a0, b0) =
   (n0 + (\<Sum>(x, y)\<leftarrow>ps. (x - ma) * (y - mb)),
    a0 + (\<Sum>(x, y)\<leftarrow>ps. (x - ma) * (x - ma)),
    b0 + (\<Sum>(x, y)\<leftarrow>ps. (y - mb) * (y - mb)))"
  by (induction ps arbitrary: n0 a0 b0) (auto simp: Let_def algebra_simps)

lemma corr_sums_fin_eq:
  "corr_sums_fin ma mb ps =
   ((\<Sum>(x, y)\<leftarrow>ps. (x - ma) * (y - mb)),
    (\<Sum>(x, y)\<leftarrow>ps. (x - ma) * (x - ma)),
    (\<Sum>(x, y)\<leftarrow>ps. (y - mb) * (y - mb)))"
  unfolding corr_sums_fin_def by (simp add: corr_fold_acc)

lemma corr_sums_fin_swap:
  "corr_sums_fin mb ma (zip b2 a2) = (case corr_sums_fin ma mb (zip a2 b2) of (num, da, db) \<Rightarrow> (num, db, da))"
proof -
  have z: "zip b2 a2 = map (\<lambda>(x, y). (y, x)) (zip a2 b2)" by (rule zip_commute)
  have sw: "\<And>h ps. (\<Sum>(x, y)\<leftarrow>map (\<lambda>(x, y). (y, x)) ps. h x y) = (\<Sum>(x, y)\<leftarrow>ps. (h y x :: real))"
    subgoal for h ps by (induction ps) auto
    done
  show ?thesis
    unfolding corr_sums_fin_eq z sw by (simp add: mult.commute)
qed

lemma lag_slices_swap:
  "lag_slices b a (- lag) = (case lag_slices a b lag of (a2, b2) \<Rightarrow> (b2, a2))"
proof -
  consider "lag = 0" | "0 < lag" | "lag < 0" by linarith
  then show ?thesis
  proof cases
    case 1
    then show ?thesis
      by (simp add: lag_slices_def truncate_same_len_def Let_def min.commute)
  next
    case 2
    then show ?thesis by (simp add: lag_slices_def Let_def)
  next
    case 3
    then show ?thesis by (simp add: lag_slices_def Let_def)
  qed
qed

lemma cauchy_schwarz_step:
  fixes x y S A B :: real
  assumes IH: "S\<^sup>2 \<le> A * B" and A: "0 \<le> A" and B: "0 \<le> B"
  shows "(x * y + S)\<^sup>2 \<le> (x * x + A) * (y * y + B)"
proof -
  have "(2 * x * y * S)\<^sup>2 = 4 * (x\<^sup>2 * y\<^sup>2) * S\<^sup>2"
    by (simp add: power2_eq_square)
  also have "\<dots> \<le> 4 * (x\<^sup>2 * y\<^sup>2) * (A * B)"
    using IH by (intro mult_left_mono) auto
  also have "\<dots> \<le> (x\<^sup>2 * B + y\<^sup>2 * A)\<^sup>2"
  proof -
    have "0 \<le> (x\<^sup>2 * B - y\<^sup>2 * A)\<^sup>2" by simp
    then show ?thesis by (simp add: power2_eq_square algebra_simps)
  qed
  finally have "(2 * x * y * S)\<^sup>2 \<le> (x\<^sup>2 * B + y\<^sup>2 * A)\<^sup>2" .
  moreover have "0 \<le> x\<^sup>2 * B + y\<^sup>2 * A" using A B by simp
  ultimately have "2 * x * y * S \<le> x\<^sup>2 * B + y\<^sup>2 * A"
    by (rule power2_le_imp_le)
  then show ?thesis using IH by (simp add: power2_eq_square algebra_simps)
qed

lemma cauchy_schwarz_list:
  fixes f g :: "'a \<Rightarrow> real"
  shows "(\<Sum>p\<leftarrow>ps. f p * g p)\<^sup>2 \<le> (\<Sum>p\<leftarrow>ps. f p * f p) * (\<Sum>p\<leftarrow>ps. g p * g p)"
proof (induction ps)
  case Nil
  then show ?case by simp
next
  case (Cons p ps)
  have A: "0 \<le> (\<Sum>p\<leftarrow>ps. f p * f p)" by (rule sum_list_nonneg) auto
  have B: "0 \<le> (\<Sum>p\<leftarrow>ps. g p * g p)" by (rule sum_list_nonneg) auto
  show ?case using cauchy_schwarz_step [OF Cons.IH A B, of "f p" "g p"] by simp
qed

lemma sum_list_squares_pos:
  fixes m :: real
  assumes "x \<in> set xs" and "x \<noteq> m"
  shows "0 < (\<Sum>v\<leftarrow>xs. (v - m) * (v - m))"
proof -
  have nn: "\<And>ys. 0 \<le> (\<Sum>v\<leftarrow>ys. (v - m) * (v - m))"
    by (rule sum_list_nonneg) auto
  from assms(1) obtain ys zs where xs: "xs = ys @ x # zs"
    by (auto simp: in_set_conv_decomp)
  have "0 < (x - m) * (x - m)" using assms(2) by (simp add: zero_less_mult_iff not_less) linarith
  then show ?thesis
    unfolding xs using nn [of ys] nn [of zs] by simp
qed

lemma corr_sums_fin_self:
  "corr_sums_fin m m (zip a a) =
     ((\<Sum>v\<leftarrow>a. (v - m) * (v - m)), (\<Sum>v\<leftarrow>a. (v - m) * (v - m)), (\<Sum>v\<leftarrow>a. (v - m) * (v - m)))"
proof -
  have z: "zip a a = map (\<lambda>v. (v, v)) a" by (induction a) auto
  show ?thesis unfolding corr_sums_fin_eq z by (simp add: comp_def)
qed

section \<open>Facts about \<^verbatim>\<open>range\<close> and the lag scan\<close>

lemma int_lt_ceil_div:
  fixes k D s :: int
  assumes s: "0 < s"
  shows "k < (D + s - 1) div s \<longleftrightarrow> k * s < D"
proof -
  define q where "q = (D + s - 1) div s"
  define r where "r = (D + s - 1) mod s"
  have r: "0 \<le> r" "r < s" using s by (simp_all add: r_def)
  have eq: "D + s - 1 = q * s + r" by (simp add: q_def r_def)
  show ?thesis unfolding q_def [symmetric]
  proof
    assume "k < q"
    then have "k \<le> q - 1" by simp
    then have "k * s \<le> (q - 1) * s" using s by (intro mult_right_mono) auto
    also have "\<dots> = D - 1 - r" using eq by (simp add: algebra_simps)
    finally show "k * s < D" using r by linarith
  next
    assume lt: "k * s < D"
    show "k < q"
    proof (rule ccontr)
      assume "\<not> k < q"
      then have "q \<le> k" by simp
      then have "q * s \<le> k * s" using s by (intro mult_right_mono) auto
      then show False using eq r lt by linarith
    qed
  qed
qed

lemma py_range_pos_length:
  "0 < step \<Longrightarrow> length (py_range start stop step) = nat ((stop - start + step - 1) div step)"
  by (simp add: py_range_def)

lemma py_range_pos_nth:
  "0 < step \<Longrightarrow> i < length (py_range start stop step) \<Longrightarrow>
     py_range start stop step ! i = start + int i * step"
  by (simp add: py_range_def)

lemma py_range_pos_length_iff:
  assumes "0 < step"
  shows "i < length (py_range start stop step) \<longleftrightarrow> start + int i * step < stop"
proof -
  have "i < nat ((stop - start + step - 1) div step) \<longleftrightarrow> int i < (stop - start + step - 1) div step"
    by linarith
  also have "\<dots> \<longleftrightarrow> int i * step < stop - start"
    by (rule int_lt_ceil_div [OF assms])
  finally show ?thesis using assms by (simp add: py_range_pos_length) linarith
qed

lemma py_range_pos_set:
  assumes "0 < step"
  shows "set (py_range start stop step) = {l. start \<le> l \<and> l < stop \<and> step dvd (l - start)}"
proof (intro set_eqI iffI)
  fix l assume "l \<in> set (py_range start stop step)"
  then obtain i where i: "i < length (py_range start stop step)" "l = py_range start stop step ! i"
    by (auto simp: in_set_conv_nth)
  then have l: "l = start + int i * step" using assms by (simp add: py_range_pos_nth)
  moreover have "l < stop" using i(1) l py_range_pos_length_iff [OF assms] by simp
  moreover have "0 \<le> int i * step" using assms by simp
  ultimately show "l \<in> {l. start \<le> l \<and> l < stop \<and> step dvd (l - start)}" by simp
next
  fix l assume "l \<in> {l. start \<le> l \<and> l < stop \<and> step dvd (l - start)}"
  then have l: "start \<le> l" "l < stop" "step dvd (l - start)" by auto
  from l(3) obtain k where k: "l - start = step * k" by (auto simp: dvd_def)
  have "0 \<le> step * k" using l(1) k by simp
  then have "0 \<le> k" using assms by (simp add: zero_le_mult_iff)
  define i where "i = nat k"
  have li: "l = start + int i * step" using k \<open>0 \<le> k\<close> by (simp add: i_def algebra_simps)
  then have "i < length (py_range start stop step)"
    using l(2) py_range_pos_length_iff [OF assms] by simp
  then show "l \<in> set (py_range start stop step)"
    using li py_range_pos_nth [OF assms] by (metis nth_mem)
qed

lemma lag_step_fin_pair:
  "lag_step_fin f x (l', c') = (if c' < f x then (x, f x) else (l', c'))"
  by (simp add: lag_step_fin_def)

lemma lag_scan_fin_spec:
  "fold (lag_step_fin f) xs (b0, c0) = (l, c) \<Longrightarrow>
     (l = b0 \<and> c = c0 \<and> (\<forall>x\<in>set xs. f x \<le> c0)) \<or>
     (\<exists>i<length xs. l = xs ! i \<and> c = f (xs ! i) \<and> c0 < c \<and>
        (\<forall>j<i. f (xs ! j) < c) \<and> (\<forall>j<length xs. f (xs ! j) \<le> c))"
proof (induction xs arbitrary: l c rule: rev_induct)
  case Nil
  then show ?case by simp
next
  case (snoc x xs)
  obtain l' c' where p: "fold (lag_step_fin f) xs (b0, c0) = (l', c')"
    by (cases "fold (lag_step_fin f) xs (b0, c0)")
  note IH = snoc.IH [OF p]
  have st: "lag_step_fin f x (l', c') = (l, c)" using snoc.prems by (simp add: p)
  show ?case
  proof (cases "c' < f x")
    case True
    then have res: "l = x" "c = f x" using st by (auto simp: lag_step_fin_pair)
    have below: "\<forall>j<length xs. f (xs ! j) \<le> c'" and c0: "c0 \<le> c'"
      using IH by (auto simp: all_set_conv_all_nth)
    have "\<forall>j<length xs. f ((xs @ [x]) ! j) < c"
      using below True res by (auto simp: nth_append)
    moreover have "\<forall>j<length (xs @ [x]). f ((xs @ [x]) ! j) \<le> c"
      using below True res by (auto simp: nth_append less_Suc_eq)
    moreover have "c0 < c" using c0 True res by simp
    ultimately have "\<exists>i<length (xs @ [x]). l = (xs @ [x]) ! i \<and> c = f ((xs @ [x]) ! i) \<and> c0 < c \<and>
        (\<forall>j<i. f ((xs @ [x]) ! j) < c) \<and> (\<forall>j<length (xs @ [x]). f ((xs @ [x]) ! j) \<le> c)"
      using res by (intro exI [of _ "length xs"]) simp
    then show ?thesis by blast
  next
    case False
    then have res: "l = l'" "c = c'" using st by (auto simp: lag_step_fin_pair)
    from IH show ?thesis
    proof
      assume "l' = b0 \<and> c' = c0 \<and> (\<forall>x\<in>set xs. f x \<le> c0)"
      then show ?thesis using False res by auto
    next
      assume "\<exists>i<length xs. l' = xs ! i \<and> c' = f (xs ! i) \<and> c0 < c' \<and>
        (\<forall>j<i. f (xs ! j) < c') \<and> (\<forall>j<length xs. f (xs ! j) \<le> c')"
      then obtain i where i: "i < length xs" "l' = xs ! i" "c' = f (xs ! i)" "c0 < c'"
        "\<forall>j<i. f (xs ! j) < c'" "\<forall>j<length xs. f (xs ! j) \<le> c'" by blast
      have "\<forall>j<i. f ((xs @ [x]) ! j) < c" using i(1,5) res by (simp add: nth_append)
      moreover have "\<forall>j<length (xs @ [x]). f ((xs @ [x]) ! j) \<le> c"
        using i(6) False res by (auto simp: nth_append less_Suc_eq)
      ultimately have "i < length (xs @ [x]) \<and> l = (xs @ [x]) ! i \<and> c = f ((xs @ [x]) ! i) \<and> c0 < c \<and>
        (\<forall>j<i. f ((xs @ [x]) ! j) < c) \<and> (\<forall>j<length (xs @ [x]). f ((xs @ [x]) ! j) \<le> c)"
        using i(1,2,3,4) res by (simp add: nth_append)
      then show ?thesis by blast
    qed
  qed
qed


lemma lag_scan_fin_no_improve:
  "\<forall>x\<in>set xs. f x \<le> c \<Longrightarrow> fold (lag_step_fin f) xs (l, c) = (l, c)"
  by (induction xs) (simp_all add: lag_step_fin_pair)

lemma corr_fin_bounds: "\<bar>corr_fin a b lag\<bar> \<le> 1"
proof -
  obtain a2 b2 where s: "lag_slices a b lag = (a2, b2)" by (cases "lag_slices a b lag")
  obtain num da db where c: "corr_sums_fin (mean_fin a2) (mean_fin b2) (zip a2 b2) = (num, da, db)"
    by (cases "corr_sums_fin (mean_fin a2) (mean_fin b2) (zip a2 b2)")
  have v: "corr_fin a b lag =
      (if a2 = [] \<or> b2 = [] then 0 else if da \<le> 0 \<or> db \<le> 0 then 0 else num / sqrt (da * db))"
    by (simp add: corr_fin_def s c)
  show ?thesis
  proof (cases "a2 = [] \<or> b2 = [] \<or> da \<le> 0 \<or> db \<le> 0")
    case True
    then show ?thesis unfolding v by auto
  next
    case False
    then have pos: "0 < da * db" by (simp add: zero_less_mult_iff)
    have cs: "num\<^sup>2 \<le> da * db"
      using cauchy_schwarz_list [of "\<lambda>p. fst p - mean_fin a2" "\<lambda>p. snd p - mean_fin b2" "zip a2 b2"] c
      unfolding corr_sums_fin_eq by (simp add: case_prod_unfold)
    have "\<bar>num\<bar> = sqrt (num\<^sup>2)" by simp
    also have "\<dots> \<le> sqrt (da * db)" using cs by (rule real_sqrt_le_mono)
    finally have "\<bar>num\<bar> \<le> sqrt (da * db)" .
    moreover have "0 < sqrt (da * db)" using pos by simp
    ultimately have "\<bar>num / sqrt (da * db)\<bar> \<le> 1" by (simp add: abs_if field_simps split: if_splits)
    then show ?thesis using False unfolding v by simp
  qed
qed

lemma corr_fin_gt: "- 2 < corr_fin a b lag"
  using corr_fin_bounds [of a b lag] by linarith

lemma real_prod_nonneg:
  fixes sr max_ms :: int
  shows "0 \<le> sr * max_ms \<Longrightarrow> 0 \<le> real_of_int sr * real_of_int max_ms"
  by (metis of_int_0_le_iff of_int_mult)

lemma maxlag_nonneg:
  "0 \<le> sr * max_ms \<Longrightarrow> py_int (real_of_int (sr * max_ms) / 1000) = \<lfloor>real_of_int (sr * max_ms) / 1000\<rfloor>"
  using real_prod_nonneg [of sr max_ms] by (simp add: py_int_def)

lemma floor_ms_nonneg:
  "0 \<le> sr * max_ms \<Longrightarrow> 0 \<le> \<lfloor>real_of_int (sr * max_ms) / 1000\<rfloor>"
  using real_prod_nonneg [of sr max_ms] by simp

lemma lag_range_nonempty:
  assumes "0 < step" "0 \<le> M"
  shows "py_range (- M) (M + 1) step = - M # tl (py_range (- M) (M + 1) step)"
proof -
  have len: "0 < length (py_range (- M) (M + 1) step)"
    using py_range_pos_length_iff [OF assms(1), of 0 "- M" "M + 1"] assms(2) by simp
  then have "py_range (- M) (M + 1) step ! 0 = - M"
    using py_range_pos_nth [OF assms(1), of 0 "- M" "M + 1"] by simp
  then show ?thesis using len by (cases "py_range (- M) (M + 1) step") auto
qed

section \<open>Facts about the decoder\<close>

lemma uint_le16: "uint (le16 b0 b1) = uint b1 * 256 + uint b0"
proof -
  have b0: "0 \<le> uint b0" "uint b0 < 256" using uint_lt2p [of b0] by simp_all
  have b1: "0 \<le> uint b1" "uint b1 < 256" using uint_lt2p [of b1] by simp_all
  have "le16 b0 b1 = word_cat b1 b0" by (simp add: le16_def word_cat_eq_push_bit_or)
  then have "uint (le16 b0 b1) = take_bit 16 (concat_bit 8 (uint b0) (uint b1))"
    by (simp add: word_cat_eq' uint_word_of_int take_bit_eq_mod)
  also have "concat_bit 8 (uint b0) (uint b1) = uint b1 * 256 + uint b0"
    using b0 by (simp add: concat_bit_eq take_bit_eq_mod push_bit_eq_mult)
  also have "take_bit 16 (uint b1 * 256 + uint b0) = uint b1 * 256 + uint b0"
    using b0 b1 by (simp add: take_bit_int_eq_self)
  finally show ?thesis .
qed

lemma sint_le16:
  "sint (le16 b0 b1) =
     (if uint b1 < 128 then uint b1 * 256 + uint b0 else uint b1 * 256 + uint b0 - 65536)"
proof -
  have b0: "0 \<le> uint b0" "uint b0 < 256" using uint_lt2p [of b0] by simp_all
  have b1: "0 \<le> uint b1" "uint b1 < 256" using uint_lt2p [of b1] by simp_all
  define u where "u = uint b1 * 256 + uint b0"
  have s: "sint (le16 b0 b1) = (u + 32768) mod 65536 - 32768"
    by (simp add: sint_uint uint_le16 u_def signed_take_bit_eq_take_bit_shift take_bit_eq_mod)
  show ?thesis
  proof (cases "uint b1 < 128")
    case True
    have t1: "0 \<le> u + 32768" unfolding u_def using True b0 b1 by linarith
    have t2: "u + 32768 < 65536" unfolding u_def using True b0 b1 by linarith
    from t1 t2 have "(u + 32768) mod 65536 = u + 32768" by (rule mod_pos_pos_trivial)
    then show ?thesis using True s by (simp add: u_def)
  next
    case False
    have r1: "0 \<le> u - 32768" unfolding u_def using False b0 b1 by linarith
    have r2: "u - 32768 < 65536" unfolding u_def using False b0 b1 by linarith
    note r = r1 r2
    have "u + 32768 = u - 32768 + 65536" by linarith
    then have "(u + 32768) mod 65536 = (u - 32768 + 65536) mod 65536" by (rule arg_cong)
    also have "\<dots> = (u - 32768) mod 65536" by (rule mod_add_self2)
    also have "\<dots> = u - 32768" using r by (rule mod_pos_pos_trivial)
    finally show ?thesis using False s by (simp add: u_def)
  qed
qed

lemma unpack_le16_length: "length (unpack_le16 bs) = length bs div 2"
  by (induction bs rule: unpack_le16.induct) auto

lemma unpack_le16_nth:
  "i < length bs div 2 \<Longrightarrow> unpack_le16 bs ! i = le16 (bs ! (2 * i)) (bs ! (2 * i + 1))"
proof (induction bs arbitrary: i rule: unpack_le16.induct)
  case (1 b0 b1 rest)
  then show ?case by (cases i) auto
qed auto

lemma unpack_le32_length: "length (unpack_le32 bs) = length bs div 4"
  by (induction bs rule: unpack_le32.induct) auto

lemma sint_le16_spec: "sint (le16 b0 b1) = spec_int16_le b0 b1"
proof -
  have b0: "0 \<le> uint b0" "uint b0 < 256" using uint_lt2p [of b0] by simp_all
  have b1: "0 \<le> uint b1" "uint b1 < 256" using uint_lt2p [of b1] by simp_all
  have "uint b1 < 128 \<longleftrightarrow> uint b0 + 256 * uint b1 < 32768" using b0 b1 by linarith
  then show ?thesis by (simp add: sint_le16 spec_int16_le_def Let_def algebra_simps)
qed

lemma read_wav_stereo_16_even:
  assumes "even (length frames)"
  shows "read_wav_stereo 2 sr 2 frames =
     Inr (sr, map (\<lambda>i. Finite (real_of_int (sint (unpack_le16 frames ! (i * 2))) / 32768))
                [0 ..< length frames div 4],
              map (\<lambda>i. Finite (real_of_int (sint (unpack_le16 frames ! (i * 2 + 1))) / 32768))
                [0 ..< length frames div 4])"
proof -
  have a: "array_h_frombytes frames = Inr (map sint (unpack_le16 frames))"
    using assms by (simp add: array_h_frombytes_def even_iff_mod_2_eq_zero)
  have d: "length frames div 2 div 2 = length frames div 4" by (simp add: div_mult2_eq [symmetric])
  show ?thesis
    by (simp add: read_wav_stereo_def a deinterleave_def unpack_le16_length d)
qed

lemma read_wav_stereo_16_odd:
  "odd (length frames) \<Longrightarrow> read_wav_stereo 2 sr 2 frames = Inl ValueError"
  by (simp add: read_wav_stereo_def array_h_frombytes_def odd_iff_mod_2_eq_one)

lemma read_wav_stereo_32_total:
  "\<exists>left right. read_wav_stereo 2 sr 4 frames = Inr (sr, left, right) \<and>
     length left = length frames div 8 \<and> length right = length frames div 8"
proof -
  have d: "length frames div 4 div 2 = length frames div 8" by (simp add: div_mult2_eq [symmetric])
  have m: "min (length frames) (length frames div 4 * 4) = length frames div 4 * 4" by simp
  show ?thesis
    by (simp add: read_wav_stereo_def deinterleave_def Let_def unpack_le32_length m d)
qed

section \<open>Facts about clipping and leakage\<close>

lemma clipped_count:
  "sum_list (map (\<lambda>v. 1::int) (filter P xs)) = int (card {i. i < length xs \<and> P (xs ! i)})"
  by (simp add: length_filter_conv_card sum_list_triv)





section \<open>Facts about the noise-floor windows\<close>

lemma window_length_eq:
  "max 1 (py_int (real_of_int (sr * win_ms) / 1000)) = max 1 \<lfloor>real_of_int (sr * win_ms) / 1000\<rfloor>"
proof (cases "0 \<le> real_of_int (sr * win_ms) / 1000")
  case True
  then show ?thesis by (simp add: py_int_def)
next
  case False
  then have "\<lceil>real_of_int (sr * win_ms) / 1000\<rceil> \<le> 0" "\<lfloor>real_of_int (sr * win_ms) / 1000\<rfloor> \<le> 0"
    by (simp_all add: ceiling_le_iff floor_le_iff)
  then show ?thesis using False by (simp add: py_int_def max_def)
qed

lemma noise_windows_length:
  "0 < win \<Longrightarrow> length (noise_windows arr win) = nat ((int (length arr) - 1) div win)"
  by (simp add: noise_windows_def py_range_pos_length)

lemma window_count_not_multiple:
  fixes n win :: int
  assumes "0 < win" "0 \<le> n" "\<not> win dvd n"
  shows "(n - 1) div win = n div win"
proof -
  have "0 \<le> n mod win" "n mod win \<noteq> 0" using assms by (simp_all add: dvd_eq_mod_eq_0)
  then have r1: "0 \<le> n mod win - 1" by linarith
  have r2: "n mod win - 1 < win" using pos_mod_bound [OF assms(1), of n] by linarith
  have "n - 1 = win * (n div win) + (n mod win - 1)" by simp
  then show ?thesis using r1 r2 by (rule int_div_pos_eq)
qed

lemma window_count_multiple:
  fixes n win :: int
  assumes "0 < win" "win dvd n"
  shows "(n - 1) div win = n div win - 1"
proof -
  from assms(2) obtain k where k: "n = win * k" by (auto simp: dvd_def)
  have "n - 1 = win * (k - 1) + (win - 1)" by (simp add: k algebra_simps)
  moreover have "0 \<le> win - 1" "win - 1 < win" using assms(1) by simp_all
  ultimately have "(n - 1) div win = k - 1" by (rule int_div_pos_eq)
  then show ?thesis using assms(1) by (simp add: k)
qed

lemma noise_windows_nth:
  "0 < win \<Longrightarrow> i < length (noise_windows arr win) \<Longrightarrow>
     noise_windows arr win ! i = rms (take (nat win) (drop (i * nat win) arr))"
  by (simp add: noise_windows_def py_range_pos_nth nat_mult_distrib)

lemma noise_windows_exact: "0 < win \<Longrightarrow> int (length arr) = win \<Longrightarrow> noise_windows arr win = []"
  using noise_windows_length [of win arr] by simp

lemma noise_windows_one:
  assumes "0 < win" "win < int (length arr)" "int (length arr) < 2 * win"
  shows "noise_windows arr win = [rms (take (nat win) arr)]"
proof -
  have "(int (length arr) - 1) div win = 1"
    using assms by (intro int_div_pos_eq [where r = "int (length arr) - 1 - win"]) auto
  then have l: "length (noise_windows arr win) = 1"
    using noise_windows_length [OF assms(1), of arr] by simp
  then have "noise_windows arr win ! 0 = rms (take (nat win) arr)"
    using noise_windows_nth [OF assms(1), of 0 arr] by simp
  then show ?thesis using l by (cases "noise_windows arr win") auto
qed

lemma py_int_lt_2: "p < 2 \<Longrightarrow> py_int p < 2"
  by (auto simp: py_int_def floor_less_iff ceiling_less_iff)

lemma rms_1: "rms [1] = 1" by (simp add: rms_def)
lemma rms_11: "rms [1, 1] = 1" by (simp add: rms_def)
lemma rms_110: "rms [1, 1, 0] = sqrt (2 / 3)" by (simp add: rms_def)

section \<open>Concrete correlations\<close>

lemma sqrt_quarter: "sqrt (1 / 4) = 1 / 2"
  using real_sqrt_abs [of "1 / 2"] by (simp add: power2_eq_square)

lemma corr01_0: "corr_fin [0, 1] [0, 1] 0 = 1"
  by (simp add: corr_fin_def lag_slices_def truncate_same_len_def mean_fin_def corr_sums_fin_def
      sqrt_quarter)

lemma corr01_p: "corr_fin [0, 1] [0, 1] 1 = 0"
  by (simp add: corr_fin_def lag_slices_def truncate_same_len_def mean_fin_def corr_sums_fin_def)

lemma corr01_m: "corr_fin [0, 1] [0, 1] (- 1) = 0"
  by (simp add: corr_fin_def lag_slices_def truncate_same_len_def mean_fin_def corr_sums_fin_def)

section \<open>Degenerate correlations\<close>

text \<open>
  Two empty buffers, or a constant buffer on either side, give the degenerate result 0 at
  every lag (on finite samples, where the mean of a constant segment is that constant).
\<close>

lemma corr_fin_empty: "corr_fin [] [] lag = 0"
  by (simp add: corr_fin_def lag_slices_def truncate_same_len_def)

lemma lag_slices_subset:
  "lag_slices a b lag = (a2, b2) \<Longrightarrow> set a2 \<subseteq> set a \<and> set b2 \<subseteq> set b"
  by (auto simp: lag_slices_def truncate_same_len_def Let_def split: if_splits
      dest: in_set_takeD in_set_dropD)

lemma mean_fin_const:
  assumes "\<forall>x\<in>set xs. x = k" "xs \<noteq> []"
  shows "mean_fin xs = k"
proof -
  have "replicate (length xs) k = xs" using assms(1) by (intro replicate_length_same) auto
  then have "sum_list xs = real (length xs) * k" by (metis sum_list_replicate)
  then show ?thesis using assms(2) by (simp add: mean_fin_def)
qed

lemma sum_list_all_zero:
  fixes f :: "'a \<Rightarrow> real"
  shows "\<forall>p\<in>set ps. f p = 0 \<Longrightarrow> sum_list (map f ps) = 0"
  by (induction ps) auto

lemma corr_fin_const_left:
  assumes "\<forall>x\<in>set a. x = k"
  shows "corr_fin a b lag = 0"
proof -
  obtain a2 b2 where s: "lag_slices a b lag = (a2, b2)" by (cases "lag_slices a b lag")
  obtain num da db where c: "corr_sums_fin (mean_fin a2) (mean_fin b2) (zip a2 b2) = (num, da, db)"
    by (cases "corr_sums_fin (mean_fin a2) (mean_fin b2) (zip a2 b2)")
  have v: "corr_fin a b lag =
      (if a2 = [] \<or> b2 = [] then 0 else if da \<le> 0 \<or> db \<le> 0 then 0 else num / sqrt (da * db))"
    by (simp add: corr_fin_def s c)
  show ?thesis
  proof (cases "a2 = []")
    case True
    then show ?thesis unfolding v by simp
  next
    case False
    have all: "\<forall>x\<in>set a2. x = k" using lag_slices_subset [OF s] assms by blast
    then have m: "mean_fin a2 = k" using False by (rule mean_fin_const)
    have "da = (\<Sum>(x, y)\<leftarrow>zip a2 b2. (x - k) * (x - k))"
      using c unfolding corr_sums_fin_eq m by simp
    also have "\<dots> = 0"
      using all by (intro sum_list_all_zero) (auto dest: set_zip_leftD)
    finally show ?thesis unfolding v by simp
  qed
qed

lemma corr_fin_const_right:
  assumes "\<forall>y\<in>set b. y = k"
  shows "corr_fin a b lag = 0"
proof -
  obtain a2 b2 where s: "lag_slices a b lag = (a2, b2)" by (cases "lag_slices a b lag")
  obtain num da db where c: "corr_sums_fin (mean_fin a2) (mean_fin b2) (zip a2 b2) = (num, da, db)"
    by (cases "corr_sums_fin (mean_fin a2) (mean_fin b2) (zip a2 b2)")
  have v: "corr_fin a b lag =
      (if a2 = [] \<or> b2 = [] then 0 else if da \<le> 0 \<or> db \<le> 0 then 0 else num / sqrt (da * db))"
    by (simp add: corr_fin_def s c)
  show ?thesis
  proof (cases "b2 = []")
    case True
    then show ?thesis unfolding v by simp
  next
    case False
    have all: "\<forall>y\<in>set b2. y = k" using lag_slices_subset [OF s] assms by blast
    then have m: "mean_fin b2 = k" using False by (rule mean_fin_const)
    have "db = (\<Sum>(x, y)\<leftarrow>zip a2 b2. (y - k) * (y - k))"
      using c unfolding corr_sums_fin_eq m by simp
    also have "\<dots> = 0"
      using all by (intro sum_list_all_zero) (auto dest: set_zip_rightD)
    finally show ?thesis unfolding v by simp
  qed
qed

section \<open>Facts about the correlation on \<open>pyfloat\<close> samples\<close>

lemma pf_mul_commute: "pf_mul x y = pf_mul y x"
  by (cases x; cases y) (simp_all add: mult.commute)

lemma corr_fold_swap:
  "fold (\<lambda>(x, y) (num, da, db).
           (pf_add num (pf_mul (pf_sub x mb) (pf_sub y ma)),
            pf_add da (pf_mul (pf_sub x mb) (pf_sub x mb)),
            pf_add db (pf_mul (pf_sub y ma) (pf_sub y ma))))
        (map (\<lambda>(x, y). (y, x)) ps) (n0, b0, a0) =
   (case fold (\<lambda>(x, y) (num, da, db).
           (pf_add num (pf_mul (pf_sub x ma) (pf_sub y mb)),
            pf_add da (pf_mul (pf_sub x ma) (pf_sub x ma)),
            pf_add db (pf_mul (pf_sub y mb) (pf_sub y mb))))
        ps (n0, a0, b0) of (num, da, db) \<Rightarrow> (num, db, da))"
proof (induction ps arbitrary: n0 a0 b0)
  case Nil
  then show ?case by simp
next
  case (Cons p ps)
  obtain x y where p: "p = (x, y)" by (cases p)
  have c: "pf_mul (pf_sub y mb) (pf_sub x ma) = pf_mul (pf_sub x ma) (pf_sub y mb)"
    by (rule pf_mul_commute)
  show ?case by (simp add: p c Cons.IH)
qed

lemma corr_sums_swap:
  "corr_sums mb ma (zip b2 a2) =
     (case corr_sums ma mb (zip a2 b2) of (num, da, db) \<Rightarrow> (num, db, da))"
proof -
  have z: "zip b2 a2 = map (\<lambda>(x, y). (y, x)) (zip a2 b2)" by (rule zip_commute)
  show ?thesis unfolding corr_sums_def z Let_def by (rule corr_fold_swap)
qed

lemma corr_at_lag_unfold:
  assumes "lag_slices a b lag = (a2, b2)"
    and "corr_sums (mean a2) (mean b2) (zip a2 b2) = (num, da, db)"
  shows "corr_at_lag a b lag =
      (if a2 = [] \<or> b2 = [] then Inr (Finite 0)
       else if pf_le da (Finite 0) \<or> pf_le db (Finite 0) then Inr (Finite 0)
       else if \<not> sqrt_domain (pf_mul da db) then Inl ValueError
       else if pf_sqrt (pf_mul da db) = Finite 0 then Inl ZeroDivisionError
       else Inr (pf_div num (pf_sqrt (pf_mul da db))))"
  by (simp add: corr_at_lag_def assms Let_def)

lemma corr_divisor:
  assumes "\<not> pf_le da (Finite 0)" "\<not> pf_le db (Finite 0)"
  shows "sqrt_domain (pf_mul da db) \<and> pf_sqrt (pf_mul da db) \<noteq> Finite 0"
  using assms by (cases da; cases db) (auto simp: inf_of_sign_def)

lemma corr_at_lag_total: "\<exists>c. corr_at_lag a b lag = Inr c"
proof -
  obtain a2 b2 where s: "lag_slices a b lag = (a2, b2)" by (cases "lag_slices a b lag")
  obtain num da db where c: "corr_sums (mean a2) (mean b2) (zip a2 b2) = (num, da, db)"
    by (cases "corr_sums (mean a2) (mean b2) (zip a2 b2)")
  show ?thesis
    unfolding corr_at_lag_unfold [OF s c] using corr_divisor [of da db] by auto
qed

section \<open>Finite samples\<close>

lemma sum_Finite:
  "fold (\<lambda>v s. pf_add s v) (map Finite xs) (Finite s0) = Finite (s0 + sum_list xs)"
  by (induction xs arbitrary: s0) (simp_all add: add.assoc)

lemma mean_Finite: "mean (map Finite xs) = Finite (mean_fin xs)"
  by (simp add: mean_def mean_fin_def sum_Finite)

lemma lag_slices_map:
  "lag_slices (map f a) (map f b) lag =
     (case lag_slices a b lag of (a2, b2) \<Rightarrow> (map f a2, map f b2))"
  by (simp add: lag_slices_def truncate_same_len_def Let_def take_map drop_map)

lemma corr_fold_Finite:
  "fold (\<lambda>(x, y) (num, da, db).
           (pf_add num (pf_mul (pf_sub x (Finite ma)) (pf_sub y (Finite mb))),
            pf_add da (pf_mul (pf_sub x (Finite ma)) (pf_sub x (Finite ma))),
            pf_add db (pf_mul (pf_sub y (Finite mb)) (pf_sub y (Finite mb)))))
        (map (\<lambda>(x, y). (Finite x, Finite y)) ps) (Finite n0, Finite a0, Finite b0) =
   (case fold (\<lambda>(x, y) (num, da, db).
             (num + (x - ma) * (y - mb), da + (x - ma) * (x - ma), db + (y - mb) * (y - mb)))
          ps (n0, a0, b0) of (num, da, db) \<Rightarrow> (Finite num, Finite da, Finite db))"
proof (induction ps arbitrary: n0 a0 b0)
  case Nil
  then show ?case by simp
next
  case (Cons p ps)
  obtain x y where p: "p = (x, y)" by (cases p)
  show ?case by (simp add: p Cons.IH)
qed

lemma corr_sums_Finite:
  "corr_sums (Finite ma) (Finite mb) (zip (map Finite a2) (map Finite b2)) =
     (case corr_sums_fin ma mb (zip a2 b2) of (num, da, db) \<Rightarrow> (Finite num, Finite da, Finite db))"
proof -
  have z: "zip (map Finite a2) (map Finite b2) = map (\<lambda>(x, y). (Finite x, Finite y)) (zip a2 b2)"
    by (simp add: zip_map_map)
  show ?thesis unfolding corr_sums_def corr_sums_fin_def z Let_def by (rule corr_fold_Finite)
qed

lemma corr_at_lag_Finite:
  "corr_at_lag (map Finite a) (map Finite b) lag = Inr (Finite (corr_fin a b lag))"
proof -
  obtain a2 b2 where s: "lag_slices a b lag = (a2, b2)" by (cases "lag_slices a b lag")
  obtain num da db where c: "corr_sums_fin (mean_fin a2) (mean_fin b2) (zip a2 b2) = (num, da, db)"
    by (cases "corr_sums_fin (mean_fin a2) (mean_fin b2) (zip a2 b2)")
  have s': "lag_slices (map Finite a) (map Finite b) lag = (map Finite a2, map Finite b2)"
    by (simp add: lag_slices_map s)
  have c': "corr_sums (mean (map Finite a2)) (mean (map Finite b2))
              (zip (map Finite a2) (map Finite b2)) = (Finite num, Finite da, Finite db)"
    by (simp add: mean_Finite corr_sums_Finite c)
  have v: "corr_fin a b lag =
      (if a2 = [] \<or> b2 = [] then 0 else if da \<le> 0 \<or> db \<le> 0 then 0 else num / sqrt (da * db))"
    by (simp add: corr_fin_def s c)
  show ?thesis
  proof (cases "a2 = [] \<or> b2 = [] \<or> da \<le> 0 \<or> db \<le> 0")
    case True
    then show ?thesis unfolding corr_at_lag_unfold [OF s' c'] v by auto
  next
    case False
    then have pos: "0 < da * db" by (simp add: zero_less_mult_iff)
    then have "0 < sqrt (da * db)" by (simp only: real_sqrt_gt_0_iff)
    then have nz: "sqrt (da * db) \<noteq> 0" by linarith
    have nn: "0 \<le> da * db" using pos by linarith
    show ?thesis using False nz nn unfolding corr_at_lag_unfold [OF s' c'] v by simp
  qed
qed

lemma lag_scan_Finite:
  "\<forall>x\<in>set xs. f x = Inr (Finite (g x)) \<Longrightarrow>
     fold (lag_step f) xs (Inr (b0, Finite c0)) =
       (case fold (lag_step_fin g) xs (b0, c0) of (l, c) \<Rightarrow> Inr (l, Finite c))"
proof (induction xs arbitrary: b0 c0)
  case Nil
  then show ?case by simp
next
  case (Cons x xs)
  have fx: "f x = Inr (Finite (g x))" using Cons.prems by simp
  have st: "lag_step f x (Inr (b0, Finite c0)) =
      (case lag_step_fin g x (b0, c0) of (l, c) \<Rightarrow> Inr (l, Finite c))"
    by (simp add: lag_step_def lag_step_fin_def fx Let_def)
  obtain l c where p: "lag_step_fin g x (b0, c0) = (l, c)" by (cases "lag_step_fin g x (b0, c0)")
  have "fold (lag_step f) xs (Inr (l, Finite c)) =
      (case fold (lag_step_fin g) xs (l, c) of (l, c) \<Rightarrow> Inr (l, Finite c))"
    using Cons.prems by (intro Cons.IH) simp
  then show ?case by (simp add: st p)
qed

lemma best_lag_unfold:
  assumes "0 < step" "0 \<le> sr * max_ms"
  shows "best_lag a b sr max_ms step =
     fold (lag_step (corr_at_lag a b))
            (py_range (- \<lfloor>real_of_int (sr * max_ms) / 1000\<rfloor>)
                      (\<lfloor>real_of_int (sr * max_ms) / 1000\<rfloor> + 1) step) (Inr (0, Finite (- 2)))"
  unfolding best_lag_def maxlag_nonneg [OF assms(2)] Let_def using assms(1) by simp

lemma corr_at_lag_empty: "corr_at_lag [] [] lag = Inr (Finite 0)"
  by (simp add: corr_at_lag_def lag_slices_def truncate_same_len_def)

lemma corr_at_lag_const_left:
  "\<forall>x\<in>set a. x = k \<Longrightarrow> corr_at_lag (map Finite a) (map Finite b) lag = Inr (Finite 0)"
  by (simp add: corr_at_lag_Finite corr_fin_const_left)

lemma corr_at_lag_const_right:
  "\<forall>y\<in>set b. y = k \<Longrightarrow> corr_at_lag (map Finite a) (map Finite b) lag = Inr (Finite 0)"
  by (simp add: corr_at_lag_Finite corr_fin_const_right)

lemma lag_scan_fin_best:
  assumes step: "0 < step" and M0: "0 \<le> maxlag" and gt: "\<And>l. - 2 < f l"
  shows "\<exists>l c. fold (lag_step_fin f) (py_range (- maxlag) (maxlag + 1) step) (0, - 2) = (l, c) \<and>
           - maxlag \<le> l \<and> l \<le> maxlag \<and> step dvd (l + maxlag) \<and> c = f l \<and>
           (\<forall>l'. - maxlag \<le> l' \<and> l' \<le> maxlag \<and> step dvd (l' + maxlag) \<longrightarrow>
                  f l' \<le> c \<and> (l' < l \<longrightarrow> f l' < c))"
proof -
  define lags where "lags = py_range (- maxlag) (maxlag + 1) step"
  have setl: "set lags = {l. - maxlag \<le> l \<and> l \<le> maxlag \<and> step dvd (l + maxlag)}"
    unfolding lags_def py_range_pos_set [OF step] by auto
  have nth: "\<And>i. i < length lags \<Longrightarrow> lags ! i = - maxlag + int i * step"
    unfolding lags_def using py_range_pos_nth [OF step] by simp
  have ne: "lags = - maxlag # tl lags"
    unfolding lags_def using lag_range_nonempty [OF step M0] .
  obtain l c where r: "fold (lag_step_fin f) lags (0, - 2) = (l, c)"
    by (cases "fold (lag_step_fin f) lags (0, - 2)")
  have hd: "- maxlag \<in> set lags" using ne by (metis list.set_intros(1))
  have "\<not> (\<forall>x\<in>set lags. f x \<le> - 2)"
    using hd gt [of "- maxlag"] by (auto simp: not_le intro!: bexI [of _ "- maxlag"])
  with lag_scan_fin_spec [OF r] obtain i where i: "i < length lags" "l = lags ! i" "c = f (lags ! i)"
      "\<forall>j<i. f (lags ! j) < c" "\<forall>j<length lags. f (lags ! j) \<le> c"
    by blast
  have lin: "l \<in> set lags" using i(1,2) by simp
  have best: "f l' \<le> c \<and> (l' < l \<longrightarrow> f l' < c)"
    if l': "- maxlag \<le> l' \<and> l' \<le> maxlag \<and> step dvd (l' + maxlag)" for l'
  proof -
    from l' have "l' \<in> set lags" unfolding setl by simp
    then obtain j where j: "j < length lags" "lags ! j = l'" by (auto simp: in_set_conv_nth)
    have le: "f l' \<le> c" using i(5) j by auto
    have "f l' < c" if "l' < l"
    proof -
      have "int j * step < int i * step" using that nth [OF j(1)] nth [OF i(1)] j(2) i(2) by simp
      then have "j < i" using step by (simp add: mult_less_cancel_right)
      then show ?thesis using i(4) j(2) by auto
    qed
    with le show ?thesis by blast
  qed
  have "- maxlag \<le> l \<and> l \<le> maxlag \<and> step dvd (l + maxlag)" using lin unfolding setl by simp
  moreover have "c = f l" using i(2,3) by simp
  ultimately show ?thesis using r best unfolding lags_def by blast
qed

lemma lag_scan_fin_zero:
  assumes step: "0 < step" and M0: "0 \<le> maxlag"
  shows "fold (lag_step_fin (\<lambda>l. 0)) (py_range (- maxlag) (maxlag + 1) step) (0, - 2) = (- maxlag, 0)"
proof -
  define lags where "lags = py_range (- maxlag) (maxlag + 1) step"
  have ne: "lags = - maxlag # tl lags"
    unfolding lags_def using lag_range_nonempty [OF step M0] .
  have "fold (lag_step_fin (\<lambda>l. 0)) lags (0, - 2) =
          fold (lag_step_fin (\<lambda>l. 0)) (tl lags) (lag_step_fin (\<lambda>l. 0) (- maxlag) (0, - 2))"
    by (subst ne) simp
  also have "lag_step_fin (\<lambda>l. 0) (- maxlag) (0, - 2) = (- maxlag, 0)"
    by (simp add: lag_step_fin_pair)
  also have "fold (lag_step_fin (\<lambda>l. 0)) (tl lags) (- maxlag, 0) = (- maxlag, 0)"
    by (rule lag_scan_fin_no_improve) simp
  finally show ?thesis unfolding lags_def .
qed

section \<open>A payload with NaN samples\<close>

text \<open>
  Six 32-bit floats, NaN NaN 0 0 1 1: the first value is a NaN, so \<^verbatim>\<open>max\<close> keeps it,
  \<^verbatim>\<open>maxabs > 10.0\<close> is false and the float reading stands. Both channels come out as
  \<open>[NaN, 0, 1]\<close>.
\<close>

lemma f32_nan: "f32_value (le32 0x00 0x00 0xC0 0x7F) = NaN"
  by (simp add: f32_value_def le32_def Let_def)

lemma f32_zero: "f32_value (le32 0x00 0x00 0x00 0x00) = Finite 0"
  by (simp add: f32_value_def le32_def Let_def)

lemma f32_one: "f32_value (le32 0x00 0x00 0x80 0x3F) = Finite 1"
  by (simp add: f32_value_def le32_def Let_def)

lemma read_wav_stereo_nan_payload:
  "read_wav_stereo 2 sr 4
     [0x00, 0x00, 0xC0, 0x7F, 0x00, 0x00, 0xC0, 0x7F,
      0x00, 0x00, 0x00, 0x00, 0x00, 0x00, 0x00, 0x00,
      0x00, 0x00, 0x80, 0x3F, 0x00, 0x00, 0x80, 0x3F] =
   Inr (sr, [NaN, Finite 0, Finite 1], [NaN, Finite 0, Finite 1])"
  by (simp add: read_wav_stereo_def Let_def f32_nan f32_zero f32_one maxabs_of_def deinterleave_def
      upt_rec)

section \<open>Claims\<close>

text \<open>
  C6. For every pair of buffers \<open>a\<close>, \<open>b\<close> and every lag, the correlation of \<open>a\<close>
  against \<open>b\<close> at \<open>lag\<close> is the correlation of \<open>b\<close> against \<open>a\<close> at \<open>- lag\<close>.
  The two calls cut the same two segments, so the equality is exact: no difference is left
  at the boundary. It holds of buffers with NaN or infinite samples as well.
\<close>

theorem corr_at_lag_swap_negate: "corr_at_lag a b lag = corr_at_lag b a (- lag)"
proof -
  obtain a2 b2 where s: "lag_slices a b lag = (a2, b2)" by (cases "lag_slices a b lag")
  then have s': "lag_slices b a (- lag) = (b2, a2)" by (simp add: lag_slices_swap)
  obtain num da db where c: "corr_sums (mean a2) (mean b2) (zip a2 b2) = (num, da, db)"
    by (cases "corr_sums (mean a2) (mean b2) (zip a2 b2)")
  have c': "corr_sums (mean b2) (mean a2) (zip b2 a2) = (num, db, da)"
    using corr_sums_swap [of "mean b2" "mean a2" b2 a2] by (simp add: c)
  have m: "pf_mul db da = pf_mul da db" by (rule pf_mul_commute)
  show ?thesis
    unfolding corr_at_lag_unfold [OF s c] corr_at_lag_unfold [OF s' c'] m by auto
qed

text \<open>
  C7, as the claim states it, fails: a buffer that holds a NaN sample beside the samples 0
  and 1 is not constant, and its correlation with itself at lag 0 is a NaN, not 1. The mean
  is a NaN, so are the three sums, and a NaN passes both \<^verbatim>\<open><= 0.0\<close> guards.
\<close>

theorem corr_at_lag_self_nan_counterexample:
  "Finite 0 \<in> set [NaN, Finite 0, Finite 1] \<and> Finite 1 \<in> set [NaN, Finite 0, Finite 1] \<and>
   Finite 0 \<noteq> Finite 1 \<and>
   corr_at_lag [NaN, Finite 0, Finite 1] [NaN, Finite 0, Finite 1] 0 = Inr NaN"
  by (simp add: corr_at_lag_def lag_slices_def truncate_same_len_def mean_def corr_sums_def)

text \<open>
  C7, amended. For every non-constant buffer \<open>a\<close> whose samples are all finite (two of
  them differ), the correlation of \<open>a\<close> with itself at lag 0 is 1. Over the reals the three
  sums coincide in a positive value \<open>D\<close>, and \<open>D / sqrt (D * D) = 1\<close>.
\<close>

theorem corr_at_lag_self:
  assumes "\<exists>x\<in>set a. \<exists>y\<in>set a. x \<noteq> y"
  shows "corr_at_lag (map Finite a) (map Finite a) 0 = Inr (Finite 1)"
proof -
  from assms obtain x y where xy: "x \<in> set a" "y \<in> set a" "x \<noteq> y" by blast
  then have ne: "a \<noteq> []" by auto
  define D where "D = (\<Sum>v\<leftarrow>a. (v - mean_fin a) * (v - mean_fin a))"
  have "x \<noteq> mean_fin a \<or> y \<noteq> mean_fin a" using xy(3) by auto
  then have D: "0 < D"
    unfolding D_def using xy(1,2) sum_list_squares_pos by blast
  have s: "lag_slices a a 0 = (a, a)"
    by (simp add: lag_slices_def truncate_same_len_def)
  have c: "corr_sums_fin (mean_fin a) (mean_fin a) (zip a a) = (D, D, D)"
    by (simp add: corr_sums_fin_self D_def)
  have "corr_fin a a 0 = D / sqrt (D * D)"
    using ne D by (simp add: corr_fin_def s c)
  also have "\<dots> = 1" using D by simp
  finally show ?thesis by (simp add: corr_at_lag_Finite)
qed

theorem corr_at_lag_self_witness:
  "(0::real) \<in> set [0, 1] \<and> (1::real) \<in> set [0, 1] \<and> (0::real) \<noteq> 1 \<and>
   corr_at_lag [Finite 0, Finite 1] [Finite 0, Finite 1] 0 = Inr (Finite 1)"
proof -
  have h: "\<exists>x\<in>set [0, 1 :: real]. \<exists>y\<in>set [0, 1]. x \<noteq> y"
  proof (rule bexI [of _ 0], rule bexI [of _ 1])
    show "(0::real) \<noteq> 1" by simp
  qed simp_all
  show ?thesis using corr_at_lag_self [OF h] by simp
qed

text \<open>
  C5, as the claim states it, fails: on two buffers that hold a NaN sample the correlation is
  a NaN at each of the lags \<open>- 1\<close>, \<open>0\<close>, \<open>1\<close>; \<^verbatim>\<open>c > bestc\<close> is never true, and
  \<open>best_lag\<close> returns its initial \<open>(0, - 2)\<close>: lag 0 with a value that is not the correlation
  at lag 0.
\<close>

theorem best_lag_nan_counterexample:
  "(0::int) < 1 \<and> (0::int) \<le> 1000 * 1 \<and>
   best_lag [NaN, Finite 0, Finite 1] [NaN, Finite 0, Finite 1] 1000 1 1 = Inr (0, Finite (- 2)) \<and>
   corr_at_lag [NaN, Finite 0, Finite 1] [NaN, Finite 0, Finite 1] 0 = Inr NaN"
proof -
  have c0: "corr_at_lag [NaN, Finite 0, Finite 1] [NaN, Finite 0, Finite 1] 0 = Inr NaN"
    by (simp add: corr_at_lag_def lag_slices_def truncate_same_len_def mean_def corr_sums_def)
  have cp: "corr_at_lag [NaN, Finite 0, Finite 1] [NaN, Finite 0, Finite 1] 1 = Inr NaN"
    by (simp add: corr_at_lag_def lag_slices_def truncate_same_len_def mean_def corr_sums_def)
  have cm: "corr_at_lag [NaN, Finite 0, Finite 1] [NaN, Finite 0, Finite 1] (- 1) = Inr NaN"
    by (simp add: corr_at_lag_def lag_slices_def truncate_same_len_def mean_def corr_sums_def)
  have r: "py_range (- 1) (1 + 1) 1 = [- 1, 0, 1]"
    by (simp add: py_range_def upt_rec)
  have m: "py_int (real_of_int (1000 * 1) / 1000) = 1" by (simp add: py_int_def)
  have "best_lag [NaN, Finite 0, Finite 1] [NaN, Finite 0, Finite 1] 1000 1 1 = Inr (0, Finite (- 2))"
    unfolding best_lag_def m Let_def r by (simp add: lag_step_def c0 cp cm)
  with c0 show ?thesis by simp
qed

text \<open>
  C5, amended. For buffers whose samples are all finite, a positive step and a non-negative
  search window, with \<open>maxlag = \<lfloor>sr * max_ms / 1000\<rfloor>\<close>, \<open>best_lag\<close> returns a lag \<open>l\<close> among
  the scanned lags (those of \<open>[- maxlag, maxlag]\<close> at a multiple of \<open>step\<close> from
  \<open>- maxlag\<close>) together with its correlation \<open>c\<close>; no scanned lag has a greater correlation,
  and every scanned lag before \<open>l\<close> has a strictly smaller one, so on ties the first lag met
  from \<open>- maxlag\<close> upward wins.
\<close>

theorem best_lag_spec:
  assumes step: "0 < step" and nn: "0 \<le> sr * max_ms"
    and M: "maxlag = \<lfloor>real_of_int (sr * max_ms) / 1000\<rfloor>"
  shows "\<exists>l c. best_lag (map Finite a) (map Finite b) sr max_ms step = Inr (l, Finite c) \<and>
           - maxlag \<le> l \<and> l \<le> maxlag \<and> step dvd (l + maxlag) \<and>
           corr_at_lag (map Finite a) (map Finite b) l = Inr (Finite c) \<and>
           (\<forall>l'. - maxlag \<le> l' \<and> l' \<le> maxlag \<and> step dvd (l' + maxlag) \<longrightarrow>
                  (\<exists>c'. corr_at_lag (map Finite a) (map Finite b) l' = Inr (Finite c') \<and>
                        c' \<le> c \<and> (l' < l \<longrightarrow> c' < c)))"
proof -
  have M0: "0 \<le> maxlag" using floor_ms_nonneg [OF nn] M by simp
  from lag_scan_fin_best [OF step M0, of "corr_fin a b"] corr_fin_gt
  obtain l c where r: "fold (lag_step_fin (corr_fin a b)) (py_range (- maxlag) (maxlag + 1) step) (0, - 2) = (l, c)"
    and l: "- maxlag \<le> l \<and> l \<le> maxlag \<and> step dvd (l + maxlag)" and c: "c = corr_fin a b l"
    and best: "\<forall>l'. - maxlag \<le> l' \<and> l' \<le> maxlag \<and> step dvd (l' + maxlag) \<longrightarrow>
                  corr_fin a b l' \<le> c \<and> (l' < l \<longrightarrow> corr_fin a b l' < c)"
    by blast
  have "best_lag (map Finite a) (map Finite b) sr max_ms step =
      fold (lag_step (corr_at_lag (map Finite a) (map Finite b)))
        (py_range (- maxlag) (maxlag + 1) step) (Inr (0, Finite (- 2)))"
    unfolding best_lag_unfold [OF step nn] M [symmetric] ..
  also have "\<dots> = (case fold (lag_step_fin (corr_fin a b)) (py_range (- maxlag) (maxlag + 1) step) (0, - 2)
                    of (l, c) \<Rightarrow> Inr (l, Finite c))"
    by (rule lag_scan_Finite) (simp add: corr_at_lag_Finite)
  finally have bl: "best_lag (map Finite a) (map Finite b) sr max_ms step = Inr (l, Finite c)"
    by (simp add: r)
  have "corr_at_lag (map Finite a) (map Finite b) l = Inr (Finite c)"
    by (simp add: corr_at_lag_Finite c)
  moreover have "\<forall>l'. - maxlag \<le> l' \<and> l' \<le> maxlag \<and> step dvd (l' + maxlag) \<longrightarrow>
                  (\<exists>c'. corr_at_lag (map Finite a) (map Finite b) l' = Inr (Finite c') \<and>
                        c' \<le> c \<and> (l' < l \<longrightarrow> c' < c))"
    using best by (simp add: corr_at_lag_Finite)
  ultimately show ?thesis using bl l by blast
qed

theorem best_lag_spec_witness:
  "(0::int) < 1 \<and> (0::int) \<le> 1000 * 1 \<and> (1::int) = \<lfloor>real_of_int (1000 * 1) / 1000\<rfloor> \<and>
   best_lag [Finite 0, Finite 1] [Finite 0, Finite 1] 1000 1 1 = Inr (0, Finite 1)"
proof -
  have s: "(0::int) < 1" by simp
  have n: "(0::int) \<le> 1000 * 1" by simp
  have f: "(1::int) = \<lfloor>real_of_int (1000 * 1) / 1000\<rfloor>" by simp
  have v: "\<And>l. corr_at_lag [Finite 0, Finite 1] [Finite 0, Finite 1] l = Inr (Finite (corr_fin [0, 1] [0, 1] l))"
    using corr_at_lag_Finite [of "[0, 1]" "[0, 1]"] by simp
  from best_lag_spec [OF s n f, of "[0, 1]" "[0, 1]"]
  obtain l c where r: "best_lag [Finite 0, Finite 1] [Finite 0, Finite 1] 1000 1 1 = Inr (l, Finite c)"
    and l: "- 1 \<le> l" "l \<le> 1" and c: "corr_at_lag [Finite 0, Finite 1] [Finite 0, Finite 1] l = Inr (Finite c)"
    and best: "\<forall>l'. - 1 \<le> l' \<and> l' \<le> 1 \<and> 1 dvd (l' + 1) \<longrightarrow>
                  (\<exists>c'. corr_at_lag [Finite 0, Finite 1] [Finite 0, Finite 1] l' = Inr (Finite c') \<and>
                        c' \<le> c \<and> (l' < l \<longrightarrow> c' < c))"
    by auto
  have "\<exists>c'. corr_at_lag [Finite 0, Finite 1] [Finite 0, Finite 1] 0 = Inr (Finite c') \<and> c' \<le> c"
    using spec [OF best, of 0] by auto
  then have c1: "1 \<le> c" by (simp add: v corr01_0)
  have cl: "c = corr_fin [0, 1] [0, 1] l" using c by (simp add: v)
  from l consider "l = - 1" | "l = 0" | "l = 1" by linarith
  then have "l = 0"
  proof cases
    case 1
    then show ?thesis using cl c1 by (simp add: corr01_m)
  next
    case 2
    then show ?thesis .
  next
    case 3
    then show ?thesis using cl c1 by (simp add: corr01_p)
  qed
  then have "c = 1" using cl by (simp add: corr01_0)
  with r \<open>l = 0\<close> s n f show ?thesis by simp
qed

text \<open>
  C10. When the correlation is the degenerate 0 at every scanned lag (both buffers empty,
  say), \<open>best_lag\<close> returns the first lag scanned, \<open>- maxlag\<close>, with correlation 0:
  the first value beats the initial \<open>- 2\<close> and no later one beats 0. The result is
  lag 0 only when \<open>maxlag = 0\<close>.
\<close>

theorem best_lag_degenerate:
  assumes step: "0 < step" and nn: "0 \<le> sr * max_ms"
    and M: "maxlag = \<lfloor>real_of_int (sr * max_ms) / 1000\<rfloor>"
    and deg: "\<forall>l. - maxlag \<le> l \<and> l \<le> maxlag \<and> step dvd (l + maxlag) \<longrightarrow>
                corr_at_lag a b l = Inr (Finite 0)"
  shows "best_lag a b sr max_ms step = Inr (- maxlag, Finite 0)"
proof -
  define lags where "lags = py_range (- maxlag) (maxlag + 1) step"
  have M0: "0 \<le> maxlag" using floor_ms_nonneg [OF nn] M by simp
  have setl: "set lags = {l. - maxlag \<le> l \<and> l \<le> maxlag \<and> step dvd (l + maxlag)}"
    unfolding lags_def py_range_pos_set [OF step] by auto
  have zero: "\<forall>l\<in>set lags. corr_at_lag a b l = Inr (Finite ((\<lambda>l. 0) l))"
    using deg unfolding setl by simp
  have "best_lag a b sr max_ms step = fold (lag_step (corr_at_lag a b)) lags (Inr (0, Finite (- 2)))"
    unfolding best_lag_unfold [OF step nn] M [symmetric] lags_def ..
  also have "\<dots> = (case fold (lag_step_fin (\<lambda>l. 0)) lags (0, - 2) of (l, c) \<Rightarrow> Inr (l, Finite c))"
    using zero by (rule lag_scan_Finite)
  also have "\<dots> = Inr (- maxlag, Finite 0)"
    unfolding lags_def lag_scan_fin_zero [OF step M0] by simp
  finally show ?thesis .
qed

theorem best_lag_degenerate_witness:
  "(0::int) < 1 \<and> (0::int) \<le> 8000 * 200 \<and> (1600::int) = \<lfloor>real_of_int (8000 * 200) / 1000\<rfloor> \<and>
   corr_at_lag [] [] 0 = Inr (Finite 0) \<and> best_lag [] [] 8000 200 1 = Inr (- 1600, Finite 0)"
proof -
  have s: "(0::int) < 1" by simp
  have n: "(0::int) \<le> 8000 * 200" by simp
  have f: "(1600::int) = \<lfloor>real_of_int (8000 * 200) / 1000\<rfloor>" by simp
  have e: "\<And>l. corr_at_lag [] [] l = Inr (Finite 0)" by (rule corr_at_lag_empty)
  have z: "\<forall>l. - 1600 \<le> l \<and> l \<le> 1600 \<and> 1 dvd (l + 1600) \<longrightarrow> corr_at_lag [] [] l = Inr (Finite 0)"
    using e by blast
  show ?thesis
    by (intro conjI s n f e best_lag_degenerate [OF s n f z])
qed

text \<open>
  C2. A payload of five bytes at sample width 2, two complete 16-bit values and one trailing
  byte: \<^verbatim>\<open>array.frombytes\<close> raises \<^verbatim>\<open>ValueError\<close>, the trailing byte is not dropped.
  The same payload at width 4 is cut to its complete values first and decodes (to no
  frame at all).
\<close>

theorem read_wav_stereo_trailing_byte:
  "read_wav_stereo 2 44100 2 [0x00, 0x40, 0x00, 0xC0, 0x7F] = Inl ValueError \<and>
   read_wav_stereo 2 44100 4 [0x00, 0x40, 0x00, 0xC0, 0x7F] = Inr (44100, [], [])"
  by (simp add: read_wav_stereo_def array_h_frombytes_def deinterleave_def Let_def)

text \<open>
  C8. At sample width 2 a payload of whole 16-bit values decodes to \<open>length frames div 4\<close>
  frames per channel; frame \<open>i\<close> of the left channel is the signed little-endian reading of
  bytes \<open>4 i\<close> and \<open>4 i + 1\<close> divided by 32768, frame \<open>i\<close> of the right channel that of bytes
  \<open>4 i + 2\<close> and \<open>4 i + 3\<close>. The PCM values 16384 and -16384 (bytes 00 40 00 C0) decode to
  left \<open>[0.5]\<close> and right \<open>[-0.5]\<close>, exactly.
\<close>

theorem read_wav_stereo_int16:
  "(even (length frames) \<longrightarrow>
      (\<exists>left right. read_wav_stereo 2 sr 2 frames = Inr (sr, left, right) \<and>
         length left = length frames div 4 \<and> length right = length frames div 4 \<and>
         (\<forall>i < length frames div 4.
            left ! i = Finite (real_of_int (spec_int16_le (frames ! (4 * i)) (frames ! (4 * i + 1))) / 32768) \<and>
            right ! i = Finite (real_of_int (spec_int16_le (frames ! (4 * i + 2)) (frames ! (4 * i + 3))) / 32768)))) \<and>
   read_wav_stereo 2 sr 2 [0x00, 0x40, 0x00, 0xC0] = Inr (sr, [Finite (1 / 2)], [Finite (- 1 / 2)])"
proof (intro conjI impI)
  assume ev: "even (length frames)"
  let ?n = "length frames div 4"
  have idx: "unpack_le16 frames ! (i * 2) = le16 (frames ! (4 * i)) (frames ! (4 * i + 1)) \<and>
             unpack_le16 frames ! (i * 2 + 1) = le16 (frames ! (4 * i + 2)) (frames ! (4 * i + 3))"
    if "i < ?n" for i
  proof -
    have "i * 2 < length frames div 2" "i * 2 + 1 < length frames div 2" using that by linarith+
    then have a: "unpack_le16 frames ! (i * 2) =
          le16 (frames ! (2 * (i * 2))) (frames ! (2 * (i * 2) + 1))"
      and b: "unpack_le16 frames ! (i * 2 + 1) =
          le16 (frames ! (2 * (i * 2 + 1))) (frames ! (2 * (i * 2 + 1) + 1))"
      by (simp_all only: unpack_le16_nth)
    have e: "2 * (i * 2) = 4 * i" "2 * (i * 2) + 1 = 4 * i + 1"
      "2 * (i * 2 + 1) = 4 * i + 2" "2 * (i * 2 + 1) + 1 = 4 * i + 3" by (simp_all add: algebra_simps)
    have e': "4 * i + 2 + 1 = 4 * i + 3" by simp
    show ?thesis using a b unfolding e e' by blast
  qed
  define left where "left = map (\<lambda>i. Finite (real_of_int (sint (unpack_le16 frames ! (i * 2))) / 32768))
                [0 ..< ?n]"
  define right where "right = map (\<lambda>i. Finite (real_of_int (sint (unpack_le16 frames ! (i * 2 + 1))) / 32768))
                [0 ..< ?n]"
  have r: "read_wav_stereo 2 sr 2 frames = Inr (sr, left, right)"
    unfolding left_def right_def by (rule read_wav_stereo_16_even [OF ev])
  have len: "length left = ?n" "length right = ?n" by (simp_all add: left_def right_def)
  have val: "left ! i = Finite (real_of_int (spec_int16_le (frames ! (4 * i)) (frames ! (4 * i + 1))) / 32768) \<and>
            right ! i = Finite (real_of_int (spec_int16_le (frames ! (4 * i + 2)) (frames ! (4 * i + 3))) / 32768)"
    if "i < ?n" for i
  proof -
    have l: "left ! i = Finite (real_of_int (sint (unpack_le16 frames ! (i * 2))) / 32768)"
      using that unfolding left_def by (subst nth_map) simp_all
    have q: "right ! i = Finite (real_of_int (sint (unpack_le16 frames ! (i * 2 + 1))) / 32768)"
      using that unfolding right_def by (subst nth_map) simp_all
    show ?thesis
      unfolding l q using idx [OF that] by (simp only: sint_le16_spec)
  qed
  show "\<exists>left right. read_wav_stereo 2 sr 2 frames = Inr (sr, left, right) \<and>
         length left = ?n \<and> length right = ?n \<and>
         (\<forall>i < ?n.
            left ! i = Finite (real_of_int (spec_int16_le (frames ! (4 * i)) (frames ! (4 * i + 1))) / 32768) \<and>
            right ! i = Finite (real_of_int (spec_int16_le (frames ! (4 * i + 2)) (frames ! (4 * i + 3))) / 32768))"
    using r len val by blast
next
  show "read_wav_stereo 2 sr 2 [0x00, 0x40, 0x00, 0xC0] = Inr (sr, [Finite (1 / 2)], [Finite (- 1 / 2)])"
    by (simp add: read_wav_stereo_def array_h_frombytes_def deinterleave_def le16_def)
qed

theorem read_wav_stereo_int16_witness:
  "even (length [0x00, 0x40, 0x00, 0xC0 :: byte]) \<and>
   (\<exists>left right. read_wav_stereo 2 44100 2 [0x00, 0x40, 0x00, 0xC0] = Inr (44100, left, right) \<and>
      length left = 1 \<and> length right = 1 \<and> left ! 0 = Finite (1 / 2) \<and> right ! 0 = Finite (- 1 / 2))"
  using read_wav_stereo_int16 [of "[0x00, 0x40, 0x00, 0xC0]" 44100]
  by simp

text \<open>
  C9. For every buffer and threshold, \<open>analyze_clipping\<close> returns the number of positions
  whose sample has \<open>\<bar>x\<bar> \<ge> threshold\<close> and 100 times that number over the length, 0 for the
  empty buffer; it has no failing branch. A buffer of 100 samples, three of them at
  \<open>\<bar>x\<bar> = 1\<close> and the others silent, gives count 3 and percentage 3 at the default
  threshold 0.95.
\<close>

theorem analyze_clipping_spec:
  "analyze_clipping arr threshold =
     (int (card {i. i < length arr \<and> threshold \<le> \<bar>arr ! i\<bar>}),
      if arr = [] then 0
      else 100 * real (card {i. i < length arr \<and> threshold \<le> \<bar>arr ! i\<bar>}) / real (length arr)) \<and>
   analyze_clipping (replicate 97 0 @ [1, - 1, 1]) (95 / 100) = (3, 3)"
proof
  show "analyze_clipping arr threshold =
     (int (card {i. i < length arr \<and> threshold \<le> \<bar>arr ! i\<bar>}),
      if arr = [] then 0
      else 100 * real (card {i. i < length arr \<and> threshold \<le> \<bar>arr ! i\<bar>}) / real (length arr))"
    unfolding analyze_clipping_def clipped_count by (simp add: Let_def)
  show "analyze_clipping (replicate 97 0 @ [1, - 1, 1]) (95 / 100) = (3, 3)"
    by (simp add: analyze_clipping_def)
qed




text \<open>
  C1. A buffer of two samples with a window of one sample (20 Hz, 50 ms) holds two complete
  windows. The loop \<^verbatim>\<open>range(0, len(arr)-win, win)\<close> stops before the start \<open>len - win\<close> of
  the last one, so only the first window is collected and the result is \<open>dbfs 1 = 0\<close>;
  with both windows the quietest one would give \<open>dbfs 0 = - 999\<close>.
\<close>

theorem noise_floor_db_drops_full_window:
  "noise_windows [1, 0] 1 = [1] \<and> noise_floor_db [1, 0] 20 50 (1 / 5) = Inr 0 \<and>
   dbfs (sort [rms [1], rms [0]] ! 0) = - 999"
proof -
  have w: "noise_windows [1, 0] 1 = [1]"
    using noise_windows_length [of 1 "[1, 0]"] noise_windows_nth [of 1 0 "[1, 0]"]
    by (cases "noise_windows [1, 0] 1") (auto simp: rms_1)
  have i: "py_int (1 / 5) = 0" by (simp add: py_int_def)
  have "noise_floor_db [1, 0] 20 50 (1 / 5) = Inr 0"
    by (simp add: noise_floor_db_def py_int_def w dbfs_def)
  moreover have "dbfs (sort [rms [1], rms [0]] ! 0) = - 999"
    by (simp add: rms_def dbfs_def)
  ultimately show ?thesis using w by simp
qed

text \<open>
  C4, as the claim states it, fails: a buffer of three samples with a window of two
  (40 Hz, 50 ms) lies between one and two windows, yet one window is collected and the
  result is that window's level, not the level of the whole buffer.
\<close>

theorem noise_floor_db_between_counterexample:
  "2 \<le> int (length [1, 1, 0 :: real]) \<and> int (length [1, 1, 0 :: real]) < 2 * 2 \<and>
   max 1 (py_int (real_of_int (40 * 50) / 1000)) = 2 \<and>
   noise_windows [1, 1, 0] 2 \<noteq> [] \<and>
   noise_floor_db [1, 1, 0] 40 50 (1 / 5) \<noteq> Inr (dbfs (rms [1, 1, 0]))"
proof -
  have w: "noise_windows [1, 1, 0] 2 = [1]"
    using noise_windows_one [of 2 "[1, 1, 0]"] by (simp add: rms_11)
  have v: "noise_floor_db [1, 1, 0] 40 50 (1 / 5) = Inr 0"
    by (simp add: noise_floor_db_def py_int_def w dbfs_def)
  have "sqrt (2 / 3) < 1" by (simp add: real_sqrt_lt_1_iff)
  then have "log 10 (sqrt (2 / 3)) < 0" by simp
  then have l: "log 10 (sqrt (2 / 3)) \<noteq> 0" by linarith
  have "dbfs (rms [1, 1, 0]) \<noteq> 0" unfolding rms_110 dbfs_def using l by simp
  then show ?thesis using w v by (simp add: py_int_def)
qed

text \<open>
  C4, amended. With \<open>win = max 1 \<lfloor>sr * win_ms / 1000\<rfloor>\<close>: a buffer whose length is exactly
  \<open>win\<close> yields \<open>dbfs (rms arr)\<close> of the whole buffer; a buffer longer than one window and
  shorter than two yields \<open>dbfs\<close> of the RMS of its first \<open>win\<close> samples only (for a
  percentile below 2, which keeps the index in range).
\<close>

theorem noise_floor_db_short:
  assumes win: "win = max 1 \<lfloor>real_of_int (sr * win_ms) / 1000\<rfloor>"
  shows "(int (length arr) = win \<longrightarrow>
            noise_floor_db arr sr win_ms percentile = Inr (dbfs (rms arr))) \<and>
         (win < int (length arr) \<and> int (length arr) < 2 * win \<and> percentile < 2 \<longrightarrow>
            noise_floor_db arr sr win_ms percentile = Inr (dbfs (rms (take (nat win) arr))))"
proof (intro conjI impI)
  have w: "max 1 (py_int (real_of_int (sr * win_ms) / 1000)) = win"
    unfolding win by (rule window_length_eq)
  have pos: "0 < win" unfolding win by simp
  {
    assume "int (length arr) = win"
    then show "noise_floor_db arr sr win_ms percentile = Inr (dbfs (rms arr))"
      unfolding noise_floor_db_def w using noise_windows_exact [OF pos] by (simp add: Let_def)
  next
    assume a: "win < int (length arr) \<and> int (length arr) < 2 * win \<and> percentile < 2"
    then have o: "noise_windows arr win = [rms (take (nat win) arr)]"
      using noise_windows_one [OF pos] by blast
    from a have "percentile < 2" by simp
    then have p2: "py_int percentile < 2" by (rule py_int_lt_2)
    then have idx: "max 0 (py_int percentile - 1) = 0" by simp
    show "noise_floor_db arr sr win_ms percentile = Inr (dbfs (rms (take (nat win) arr)))"
      unfolding noise_floor_db_def w using a p2 by (simp add: Let_def o idx)
  }
qed

theorem noise_floor_db_short_witness:
  "(2::int) = max 1 \<lfloor>real_of_int (40 * 50) / 1000\<rfloor> \<and>
   int (length [1, 1 :: real]) = 2 \<and> noise_floor_db [1, 1] 40 50 (1 / 5) = Inr (dbfs (rms [1, 1])) \<and>
   (2::int) < int (length [1, 1, 0 :: real]) \<and> int (length [1, 1, 0 :: real]) < 2 * 2 \<and> (1 / 5 :: real) < 2 \<and>
   noise_floor_db [1, 1, 0] 40 50 (1 / 5) = Inr (dbfs (rms (take (nat 2) [1, 1, 0])))"
proof -
  have win: "(2::int) = max 1 \<lfloor>real_of_int (40 * 50) / 1000\<rfloor>" by simp
  show ?thesis
    using win noise_floor_db_short [OF win, of "[1, 1]" "1 / 5"]
      noise_floor_db_short [OF win, of "[1, 1, 0]" "1 / 5"]
    by simp
qed

end
